theory Spec2Isabelle
  imports Main
begin

section \<open>Values, arguments and errors\<close>

text \<open>
  The hook \<open>useStableRef\<close> is generic in \<open>T\<close>. A JavaScript value of type
  \<open>T | RefCreator<T>\<close> is \<open>undefined\<close>, \<open>null\<close>, some other non-callable value
  (\<open>Plain\<close>) or a function. A function of type \<open>RefCreator<T> = () => T\<close> is represented
  by the value one invocation of it returns.

  The module-private \<open>const unique_symbol = Symbol("internal stable ref")\<close> is not a
  value of \<open>T\<close>: the slot of a cell has type \<open>T | typeof unique_symbol\<close>.
\<close>

type_synonym addr = nat

datatype 'a jsval = Undefined | Null | Plain 'a | Closure "'a jsval"

datatype 'a slot = unique_symbol | Value "'a jsval"

text \<open>
  The two \<open>throw new Error(...)\<close> of the accessor, and the \<open>TypeError\<close> of
  JavaScript for a call of something that is not a function.
\<close>

datatype error =
    NotAvailableDuringRender  \<comment> \<open>"Stable ref is not available during render phase."\<close>
  | Disposed                  \<comment> \<open>"Stable was disposed and is no longer available."\<close>
  | TypeError                 \<comment> \<open>calling a value that is not a function\<close>

text \<open>
  The second parameter \<open>param2?: CleanupFunction<T> | React.DependencyList\<close>. A cleanup
  closure carries an identifier of type \<open>'c\<close>; a dependency is an opaque value of type
  \<open>'d\<close>, whose HOL equality stands for JavaScript identity.
\<close>

datatype ('c, 'd) param2 = NoParam2 | CleanupFunction 'c | DependencyList "'d list"

text \<open>
  Modelled from the spec: \<open>isFunction\<close> is imported from json-storage-formatter; it
  holds of callable values. (\<open>isNil\<close>, from lodash, is only applied to the optional
  \<open>dependencies\<close> and \<open>cleanup\<close>, where it holds of \<open>None\<close>.)
\<close>

fun isFunction :: "'a jsval \<Rightarrow> bool" where
  "isFunction (Closure r) = True"
| "isFunction _ = False"

fun isFunction2 :: "('c, 'd) param2 \<Rightarrow> bool" where
  "isFunction2 (CleanupFunction c) = True"
| "isFunction2 _ = False"

text \<open>Calling a value: \<open>f()\<close>.\<close>

fun call :: "'a jsval \<Rightarrow> error + 'a jsval" where
  "call (Closure r) = Inr r"
| "call _ = Inl TypeError"

text \<open>
  Modelled from the spec: \<open>shallowCompare\<close> is imported from react-global-state-hooks.
  Section 4.1 (DependencyComparator): two sequences are equal if both are present, have
  the same length, and each pair of elements is identical; absent against present is
  never equal.
\<close>

fun shallowCompare :: "'d list option \<Rightarrow> 'd list option \<Rightarrow> bool" where
  "shallowCompare (Some a) (Some b) = (length a = length b \<and> list_all2 (=) a b)"
| "shallowCompare _ _ = False"

section \<open>Mode selection: the entry point\<close>

text \<open>
  \<open>useStableRef(param1, param2?, param3?)\<close> computes \<open>dependencies\<close> and \<open>cleanup\<close> from
  its arguments and delegates to exactly one of three hooks.
\<close>

datatype ('a, 'c, 'd) delegate =
    UseSimpleRef "'a jsval"
  | UseNonDisposableStableRef "'a jsval" "'d list"
  | UseDisposableStableRef "'a jsval" 'c "'d list"

definition dependencies_of :: "('c, 'd) param2 \<Rightarrow> 'd list option \<Rightarrow> 'd list option" where
  "dependencies_of param2 param3 =
     (if isFunction2 param2 then param3
      else (case param2 of DependencyList ds \<Rightarrow> Some ds | _ \<Rightarrow> None))"

definition cleanup_of :: "('c, 'd) param2 \<Rightarrow> 'c option" where
  "cleanup_of param2 = (case param2 of CleanupFunction c \<Rightarrow> Some c | _ \<Rightarrow> None)"

definition useStableRef ::
  "'a jsval \<Rightarrow> ('c, 'd) param2 \<Rightarrow> 'd list option \<Rightarrow> ('a, 'c, 'd) delegate" where
  "useStableRef param1 param2 param3 =
     (case dependencies_of param2 param3 of
        None \<Rightarrow> UseSimpleRef param1
      | Some dependencies \<Rightarrow>
          (case cleanup_of param2 of
             None \<Rightarrow> UseNonDisposableStableRef param1 dependencies
           | Some cleanup \<Rightarrow> UseDisposableStableRef param1 cleanup dependencies))"

section \<open>The host's memoization\<close>

text \<open>
  A call site owns a heap of objects and the first hook slot, which holds the address of
  the object the first compute phase made. The record is extended by each hook with the
  further slots it uses.
\<close>

record 'o fiber =
  heap :: "'o list"
  memo :: "addr option"

text \<open>
  Modelled from the spec: \<open>useRef(v)\<close> and \<open>useMemo(factory, [])\<close> are React's. Section 6 (a):
  a memoization primitive returning an identity-stable object for the lifetime of a call
  site given an empty dependency set. The object is allocated by the first call, at a
  new address, and the same address is returned by every later call.
\<close>

definition useMemo :: "'o \<Rightarrow> ('o, 'z) fiber_scheme \<Rightarrow> addr \<times> ('o, 'z) fiber_scheme" where
  "useMemo obj s =
     (case memo s of
        Some ref \<Rightarrow> (ref, s)
      | None \<Rightarrow> (length (heap s), s\<lparr>heap := heap s @ [obj], memo := Some (length (heap s))\<rparr>))"

definition fresh :: "'o list \<Rightarrow> 'o fiber" where
  "fresh h = \<lparr>heap = h, memo = None\<rparr>"

section \<open>useSimpleRef\<close>

text \<open>
  \<^verbatim>\<open>const ref = useRef<T>(value); ref.current = value; return ref;\<close>
  The object has the single data property \<open>current\<close>.
\<close>

record 'a ref_object =
  ref_current :: "'a slot"

definition useSimpleRef :: "'a jsval \<Rightarrow> 'a ref_object fiber \<Rightarrow> addr \<times> 'a ref_object fiber" where
  "useSimpleRef v s =
     (let (ref, s1) = useMemo \<lparr>ref_current = Value v\<rparr> s
      in (ref, s1\<lparr>heap := (heap s1)[ref := (heap s1 ! ref)\<lparr>ref_current := Value v\<rparr>]\<rparr>))"

text \<open>
  Consecutive cycles: the reference each returns, and the value a plain read
  \<open>ref.current\<close> gives after it.
\<close>

fun simple_cycles :: "'a jsval list \<Rightarrow> 'a ref_object fiber \<Rightarrow> (addr \<times> 'a slot) list" where
  "simple_cycles [] s = []"
| "simple_cycles (v # vs) s =
     (let (ref, s1) = useSimpleRef v s
      in (ref, ref_current (heap s1 ! ref)) # simple_cycles vs s1)"

section \<open>useNonDisposableStableRef\<close>

text \<open>
  The object made by \<open>useMemo\<close>: \<open>{current: unique_symbol, dependencies: undefined}\<close>.
  The immediately invoked function decides whether to build; the dependencies are
  recorded afterwards in either case.
\<close>

record ('a, 'd) memo_object =
  memo_current :: "'a slot"
  memo_dependencies :: "'d list option"

text \<open>The call site also logs the value returned by each invocation of a builder.\<close>

record ('a, 'd) eager_fiber = "('a, 'd) memo_object fiber" +
  builder_calls :: "'a jsval list"

definition eager_fresh :: "('a, 'd) memo_object list \<Rightarrow> ('a, 'd) eager_fiber" where
  "eager_fresh h = \<lparr>heap = h, memo = None, builder_calls = []\<rparr>"

definition useNonDisposableStableRef ::
  "'a jsval \<Rightarrow> 'd list \<Rightarrow> ('a, 'd) eager_fiber \<Rightarrow> error + addr \<times> ('a, 'd) eager_fiber" where
  "useNonDisposableStableRef builder dependencies s =
     (let (ref, s1) = useMemo \<lparr>memo_current = unique_symbol, memo_dependencies = None\<rparr> s;
          isFirstRun = (memo_current (heap s1 ! ref) = unique_symbol);
          shouldBuild = (isFunction builder \<and>
            (isFirstRun \<or> \<not> shallowCompare (memo_dependencies (heap s1 ! ref)) (Some dependencies)));
          afterBuild = (if shouldBuild
            then (case call builder of
                    Inl e \<Rightarrow> Inl e
                  | Inr v \<Rightarrow> Inr (s1\<lparr>heap := (heap s1)[ref := (heap s1 ! ref)\<lparr>memo_current := Value v\<rparr>],
                                     builder_calls := builder_calls s1 @ [v]\<rparr>))
            else Inr s1)
      in (case afterBuild of
            Inl e \<Rightarrow> Inl e
          | Inr s2 \<Rightarrow> Inr (ref, s2\<lparr>heap := (heap s2)[ref := (heap s2 ! ref)\<lparr>memo_dependencies := Some dependencies\<rparr>]\<rparr>)))"

text \<open>
  Consecutive cycles: what each returns and leaves behind, namely the reference, the
  value a plain read \<open>ref.current\<close> gives after the render, the recorded dependencies and
  the log of builder invocations so far.
\<close>

fun eager_cycles ::
  "('a jsval \<times> 'd list) list \<Rightarrow> ('a, 'd) eager_fiber \<Rightarrow>
     error + (addr \<times> 'a slot \<times> 'd list option \<times> 'a jsval list) list" where
  "eager_cycles [] s = Inr []"
| "eager_cycles ((builder, dependencies) # cs) s =
     (case useNonDisposableStableRef builder dependencies s of
        Inl e \<Rightarrow> Inl e
      | Inr (ref, s1) \<Rightarrow>
          (case eager_cycles cs s1 of
             Inl e \<Rightarrow> Inl e
           | Inr obs \<Rightarrow>
               Inr ((ref, memo_current (heap s1 ! ref), memo_dependencies (heap s1 ! ref),
                     builder_calls s1) # obs)))"

section \<open>useDisposableStableRef\<close>

text \<open>
  The object made by \<open>useMemo\<close>: the closure variable \<open>current\<close> behind the accessor
  property of the same name, and the data property \<open>isInitialized\<close>.
\<close>

record 'a wrapper =
  wrapper_current :: "'a slot"
  isInitialized :: bool

text \<open>
  What the call site logs: every invocation of a builder (with the value it returned) and
  of a cleanup closure (with its argument), and every run of the setter.
\<close>

datatype ('a, 'c) event =
    BuilderCalled "'a jsval"
  | CleanupCalled 'c "'a jsval"
  | CurrentSet "'a jsval"

text \<open>An element of the effect's dependency array \<open>[ref, ...dependencies]\<close>.\<close>

datatype 'd dep = RefDep addr | Dep 'd

text \<open>
  The further hook slots: the inputs of the latest render (builder, cleanup, \<open>ref\<close>,
  dependencies), the closures the two \<open>useEffectEvent\<close> wrappers dispatch to, and the
  effect that is mounted: its dependency array and what its destructor closes over
  (\<open>ref\<close> and \<open>current\<close>).
\<close>

record ('a, 'c, 'd) disposable_fiber = "'a wrapper fiber" +
  pending :: "('a jsval \<times> 'c \<times> addr \<times> 'd list) option"
  stableBuilder :: "'a jsval option"
  stableCleanup :: "'c option"
  effect :: "('d dep list \<times> addr \<times> 'a jsval) option"
  trace :: "('a, 'c) event list"

definition disposable_fresh :: "'a wrapper list \<Rightarrow> ('a, 'c, 'd) disposable_fiber" where
  "disposable_fresh h =
     \<lparr>heap = h, memo = None, pending = None, stableBuilder = None, stableCleanup = None,
      effect = None, trace = []\<rparr>"

text \<open>The accessor pair installed by \<open>Object.defineProperties\<close>.\<close>

definition get_current :: "addr \<Rightarrow> ('a, 'c, 'd) disposable_fiber \<Rightarrow> error + 'a slot" where
  "get_current ref s =
     (let wrapper = heap s ! ref in
      if \<not> isInitialized wrapper then Inl NotAvailableDuringRender
      else if wrapper_current wrapper = unique_symbol then Inl Disposed
      else Inr (wrapper_current wrapper))"

definition set_current ::
  "addr \<Rightarrow> 'a jsval \<Rightarrow> ('a, 'c, 'd) disposable_fiber \<Rightarrow> error + ('a, 'c, 'd) disposable_fiber" where
  "set_current ref v s =
     Inr (s\<lparr>heap := (heap s)[ref := (heap s ! ref)\<lparr>wrapper_current := Value v\<rparr>],
            trace := trace s @ [CurrentSet v]\<rparr>)"

text \<open>The compute phase: the hook itself.\<close>

definition useDisposableStableRef ::
  "'a jsval \<Rightarrow> 'c \<Rightarrow> 'd list \<Rightarrow> ('a, 'c, 'd) disposable_fiber \<Rightarrow>
     addr \<times> ('a, 'c, 'd) disposable_fiber" where
  "useDisposableStableRef builder cleanup dependencies s =
     (let (ref, s1) = useMemo \<lparr>wrapper_current = unique_symbol, isInitialized = False\<rparr> s
      in (ref, s1\<lparr>pending := Some (builder, cleanup, ref, dependencies)\<rparr>))"

text \<open>
  The function passed to \<open>useEffect\<close>, and the destructor it returns.
  \<^verbatim>\<open>const current = stableBuilder(); ref.current = current; ref.isInitialized = true;\<close>
  \<^verbatim>\<open>return () => { stableCleanup?.(current); ref.current = null; };\<close>
\<close>

definition run_effect ::
  "addr \<Rightarrow> 'd list \<Rightarrow> ('a, 'c, 'd) disposable_fiber \<Rightarrow> error + ('a, 'c, 'd) disposable_fiber" where
  "run_effect ref dependencies s =
     (case (case stableBuilder s of None \<Rightarrow> Inl TypeError | Some b \<Rightarrow> call b) of
        Inl e \<Rightarrow> Inl e
      | Inr current \<Rightarrow>
          (case set_current ref current (s\<lparr>trace := trace s @ [BuilderCalled current]\<rparr>) of
             Inl e \<Rightarrow> Inl e
           | Inr s1 \<Rightarrow>
               Inr (s1\<lparr>heap := (heap s1)[ref := (heap s1 ! ref)\<lparr>isInitialized := True\<rparr>],
                      effect := Some (RefDep ref # map Dep dependencies, ref, current)\<rparr>)))"

definition run_destructor ::
  "addr \<Rightarrow> 'a jsval \<Rightarrow> ('a, 'c, 'd) disposable_fiber \<Rightarrow> error + ('a, 'c, 'd) disposable_fiber" where
  "run_destructor ref current s =
     set_current ref Null
       (case stableCleanup s of
          None \<Rightarrow> s
        | Some c \<Rightarrow> s\<lparr>trace := trace s @ [CleanupCalled c current]\<rparr>)"

text \<open>
  Modelled from the spec: \<open>useEffect\<close> and \<open>useEffectEvent\<close> are React's. Section 6 (b): a
  deferred-effect primitive that runs a callback after commit and an associated cleanup
  on the next dependency change or on teardown; (c): a stable-callback wrapper that
  always dispatches to the latest version of a given function. Section 4.5: the
  transition is triggered by the first commit, or when the DependencyComparator reports
  inequality between the new and the previous dependency sequence.
\<close>

definition commit ::
  "('a, 'c, 'd) disposable_fiber \<Rightarrow> error + ('a, 'c, 'd) disposable_fiber" where
  "commit s =
     (case pending s of
        None \<Rightarrow> Inr s
      | Some (builder, cleanup, ref, dependencies) \<Rightarrow>
          (let s1 = s\<lparr>stableBuilder := Some builder, stableCleanup := Some cleanup\<rparr> in
           case effect s1 of
             None \<Rightarrow> run_effect ref dependencies s1
           | Some (deps, ref', current) \<Rightarrow>
               if shallowCompare (Some deps) (Some (RefDep ref # map Dep dependencies))
               then Inr s1
               else (case run_destructor ref' current s1 of
                       Inl e \<Rightarrow> Inl e
                     | Inr s2 \<Rightarrow> run_effect ref dependencies s2)))"

text \<open>
  Modelled from the spec: the teardown of the owning scope is React's. Section 6 (b): the
  cleanup associated with the effect runs on teardown.
\<close>

definition unmount ::
  "('a, 'c, 'd) disposable_fiber \<Rightarrow> error + ('a, 'c, 'd) disposable_fiber" where
  "unmount s =
     (case effect s of
        None \<Rightarrow> Inr s
      | Some (deps, ref, current) \<Rightarrow> run_destructor ref current (s\<lparr>effect := None\<rparr>))"

text \<open>
  What can happen at a call site: a compute phase, a commit, the teardown of the owning
  scope, and an assignment \<open>ref.current = v\<close> by a holder of the reference (there is
  none before the first compute phase has returned one). A run stops at the first
  error; otherwise it gives the references its compute phases returned, and the final
  state.
\<close>

datatype ('a, 'c, 'd) action =
    Render "'a jsval" 'c "'d list"
  | Commit
  | Unmount
  | Assign "'a jsval"

fun exec ::
  "('a, 'c, 'd) action list \<Rightarrow> ('a, 'c, 'd) disposable_fiber \<Rightarrow>
     error + addr list \<times> ('a, 'c, 'd) disposable_fiber" where
  "exec [] s = Inr ([], s)"
| "exec (Render builder cleanup dependencies # acts) s =
     (let (ref, s1) = useDisposableStableRef builder cleanup dependencies s in
      case exec acts s1 of
        Inl e \<Rightarrow> Inl e
      | Inr (refs, s2) \<Rightarrow> Inr (ref # refs, s2))"
| "exec (Commit # acts) s =
     (case commit s of Inl e \<Rightarrow> Inl e | Inr s1 \<Rightarrow> exec acts s1)"
| "exec (Unmount # acts) s =
     (case unmount s of Inl e \<Rightarrow> Inl e | Inr s1 \<Rightarrow> exec acts s1)"
| "exec (Assign v # acts) s =
     (case memo s of
        None \<Rightarrow> exec acts s
      | Some ref \<Rightarrow>
          (case set_current ref v s of Inl e \<Rightarrow> Inl e | Inr s1 \<Rightarrow> exec acts s1))"

text \<open>
  An assignment \<open>ref.current = v\<close> by a holder of the reference, for the plain objects
  of \<open>useSimpleRef\<close> and \<open>useNonDisposableStableRef\<close>, whose \<open>current\<close> is a data
  property.
\<close>

definition assign_ref_current ::
  "addr \<Rightarrow> 'a jsval \<Rightarrow> 'a ref_object fiber \<Rightarrow> error + 'a ref_object fiber" where
  "assign_ref_current ref v s =
     Inr (s\<lparr>heap := (heap s)[ref := (heap s ! ref)\<lparr>ref_current := Value v\<rparr>]\<rparr>)"

definition assign_memo_current ::
  "addr \<Rightarrow> 'a jsval \<Rightarrow> ('a, 'd) eager_fiber \<Rightarrow> error + ('a, 'd) eager_fiber" where
  "assign_memo_current ref v s =
     Inr (s\<lparr>heap := (heap s)[ref := (heap s ! ref)\<lparr>memo_current := Value v\<rparr>]\<rparr>)"

text \<open>
  A committed cycle of \<open>useDisposableStableRef\<close>: compute phases that are discarded, the
  compute phase that is committed, and its commit. The committed cycle is given by the
  value \<open>r\<close> its builder returns, its cleanup closure and its dependencies. A lifecycle
  is a sequence of committed cycles followed by the teardown.
\<close>

fun render_of :: "'a jsval \<times> 'c \<times> 'd list \<Rightarrow> ('a, 'c, 'd) action" where
  "render_of (builder, cleanup, dependencies) = Render builder cleanup dependencies"

fun cycle_actions ::
  "('a jsval \<times> 'c \<times> 'd list) list \<times> ('a jsval \<times> 'c \<times> 'd list) \<Rightarrow> ('a, 'c, 'd) action list" where
  "cycle_actions (discarded, (r, c, d)) = map render_of discarded @ [Render (Closure r) c d, Commit]"

definition lifecycle ::
  "(('a jsval \<times> 'c \<times> 'd list) list \<times> ('a jsval \<times> 'c \<times> 'd list)) list \<Rightarrow> ('a, 'c, 'd) action list" where
  "lifecycle cycles = concat (map cycle_actions cycles) @ [Unmount]"

section \<open>The behaviour the specification describes\<close>

text \<open>
  Section 4.4 of the specification, for a cell that holds \<open>v\<close> built for the dependencies
  \<open>prev\<close> after the builder invocations \<open>calls\<close>: what each further cycle leaves in the
  cell (value, recorded dependencies, builder invocations so far). A cycle is given by
  the value its builder would return and its dependencies.
\<close>

fun eager_spec ::
  "'a jsval \<Rightarrow> 'd list \<Rightarrow> 'a jsval list \<Rightarrow> ('a jsval \<times> 'd list) list \<Rightarrow>
     ('a slot \<times> 'd list option \<times> 'a jsval list) list" where
  "eager_spec v prev calls [] = []"
| "eager_spec v prev calls ((r, d) # cs) =
     (if shallowCompare (Some prev) (Some d)
      then (Value v, Some d, calls) # eager_spec v d calls cs
      else (Value r, Some d, calls @ [r]) # eager_spec r d (calls @ [r]) cs)"

text \<open>
  Section 4.5: the cycles that build are the first one and every one whose dependency
  sequence differs from the previous cycle's. \<open>rebuilt\<close> lists the values they build.
\<close>

fun changed :: "'d list \<Rightarrow> ('a jsval \<times> 'c \<times> 'd list) list \<Rightarrow> 'a jsval list" where
  "changed prev [] = []"
| "changed prev ((r, c, d) # cs) =
     (if shallowCompare (Some prev) (Some d) then changed d cs else r # changed d cs)"

fun rebuilt :: "('a jsval \<times> 'c \<times> 'd list) list \<Rightarrow> 'a jsval list" where
  "rebuilt [] = []"
| "rebuilt ((r, c, d) # cs) = r # changed d cs"

text \<open>
  The values the builders returned and the arguments the cleanups received, in the order
  of the log.
\<close>

fun built :: "('a, 'c) event list \<Rightarrow> 'a jsval list" where
  "built [] = []"
| "built (BuilderCalled v # es) = v # built es"
| "built (e # es) = built es"

fun cleaned :: "('a, 'c) event list \<Rightarrow> 'a jsval list" where
  "cleaned [] = []"
| "cleaned (CleanupCalled c v # es) = v # cleaned es"
| "cleaned (e # es) = cleaned es"

text \<open>
  The discipline of section 3: read with the value that is installed and not yet
  cleaned up (\<open>live\<close>), a log is disciplined when a builder is only invoked while nothing
  is live and its result is installed next, a cleanup is only invoked with the live
  value, after which nothing is live until the next build, and nothing is live at the
  end.
\<close>

fun disciplined :: "'a jsval option \<Rightarrow> ('a, 'c) event list \<Rightarrow> bool" where
  "disciplined live [] = (live = None)"
| "disciplined live (BuilderCalled v # CurrentSet w # es) =
     (live = None \<and> w = v \<and> disciplined (Some v) es)"
| "disciplined live (CleanupCalled c v # CurrentSet w # es) =
     (live = Some v \<and> w = Null \<and> disciplined None es)"
| "disciplined live es = False"

section \<open>Auxiliary notions\<close>

text \<open>
  A call site whose effect is mounted for the dependencies \<open>de\<close>, with the value \<open>v\<close> in
  the cell and \<open>c\<close> the latest cleanup closure.
\<close>

definition mounted ::
  "addr \<Rightarrow> 'd list \<Rightarrow> 'a jsval \<Rightarrow> 'c \<Rightarrow> ('a, 'c, 'd) disposable_fiber \<Rightarrow> bool" where
  "mounted ref de v c s \<longleftrightarrow>
     memo s = Some ref \<and> ref < length (heap s) \<and>
     effect s = Some (RefDep ref # map Dep de, ref, v) \<and> stableCleanup s = Some c \<and>
     heap s ! ref = \<lparr>wrapper_current = Value v, isInitialized = True\<rparr>"

text \<open>
  The events of the commits of further cycles and of the teardown, from such a state.
\<close>

fun lifecycle_trace ::
  "'a jsval \<Rightarrow> 'c \<Rightarrow> 'd list \<Rightarrow> ('a jsval \<times> 'c \<times> 'd list) list \<Rightarrow> ('a, 'c) event list" where
  "lifecycle_trace v c0 de [] = [CleanupCalled c0 v, CurrentSet Null]"
| "lifecycle_trace v c0 de ((r, c, d) # cs) =
     (if shallowCompare (Some de) (Some d) then lifecycle_trace v c d cs
      else [CleanupCalled c v, CurrentSet Null, BuilderCalled r, CurrentSet r] @
           lifecycle_trace r c d cs)"

text \<open>A call site before its first commit.\<close>

definition uninitialized :: "('a, 'c, 'd) disposable_fiber \<Rightarrow> bool" where
  "uninitialized s \<longleftrightarrow>
     effect s = None \<and>
     (\<forall>ref. memo s = Some ref \<longrightarrow> ref < length (heap s) \<and> \<not> isInitialized (heap s ! ref))"

text \<open>The accessor's second guard is meant for a cell that is initialized and holds the symbol.\<close>

definition cell_ok :: "'a wrapper \<Rightarrow> bool" where
  "cell_ok w \<longleftrightarrow> (isInitialized w \<longrightarrow> wrapper_current w \<noteq> unique_symbol)"

definition guarded :: "('a, 'c, 'd) disposable_fiber \<Rightarrow> bool" where
  "guarded s \<longleftrightarrow> (\<forall>ref. memo s = Some ref \<longrightarrow> ref < length (heap s) \<and> cell_ok (heap s ! ref))"

section \<open>Basic facts\<close>

lemma shallowCompare_Some: "shallowCompare (Some a) (Some b) = (a = b)"
  by (auto simp: list_all2_eq[symmetric])

lemma shallowCompare_None: "shallowCompare None y = False" "shallowCompare x None = False"
  by (cases x, simp_all)

declare shallowCompare.simps [simp del]
declare shallowCompare_Some [simp] shallowCompare_None [simp]

lemma useMemo_first: "memo s = None \<Longrightarrow>
  useMemo obj s = (length (heap s), s\<lparr>heap := heap s @ [obj], memo := Some (length (heap s))\<rparr>)"
  by (simp add: useMemo_def)

lemma useMemo_next: "memo s = Some ref \<Longrightarrow> useMemo obj s = (ref, s)"
  by (simp add: useMemo_def)

lemma ref_object_update [simp]:
  "(x :: 'a ref_object)\<lparr>ref_current := y\<rparr> = \<lparr>ref_current = y\<rparr>"
  by (cases x) simp

lemma memo_object_update [simp]:
  "(x :: ('a, 'd) memo_object)\<lparr>memo_current := y, memo_dependencies := z\<rparr> =
     \<lparr>memo_current = y, memo_dependencies = z\<rparr>"
  "(x :: ('a, 'd) memo_object)\<lparr>memo_dependencies := z\<rparr> =
     \<lparr>memo_current = memo_current x, memo_dependencies = z\<rparr>"
  by (cases x, simp)+

lemma wrapper_update [simp]:
  "(x :: 'a wrapper)\<lparr>wrapper_current := y\<rparr> = \<lparr>wrapper_current = y, isInitialized = isInitialized x\<rparr>"
  "(x :: 'a wrapper)\<lparr>isInitialized := z\<rparr> = \<lparr>wrapper_current = wrapper_current x, isInitialized = z\<rparr>"
  by (cases x, simp)+

lemma map_Dep_eq [simp]: "(map Dep a = map Dep b) = (a = b)"
  by (simp add: inj_map_eq_map inj_on_def)

lemma nth_update_cases: "i < length xs \<Longrightarrow> P (xs ! i) \<Longrightarrow> P w \<Longrightarrow> P (xs[j := w] ! i)"
  by (cases "i = j") simp_all

subsection \<open>useSimpleRef\<close>

lemma useSimpleRef_first: "memo s = None \<Longrightarrow>
  useSimpleRef v s =
    (length (heap s), s\<lparr>heap := heap s @ [\<lparr>ref_current = Value v\<rparr>], memo := Some (length (heap s))\<rparr>)"
  by (simp add: useSimpleRef_def useMemo_first)

lemma useSimpleRef_next: "memo s = Some ref \<Longrightarrow>
  useSimpleRef v s = (ref, s\<lparr>heap := (heap s)[ref := \<lparr>ref_current = Value v\<rparr>]\<rparr>)"
  by (simp add: useSimpleRef_def useMemo_next)

lemma simple_cycles_next:
  "memo s = Some ref \<Longrightarrow> ref < length (heap s) \<Longrightarrow>
   simple_cycles vs s = map (\<lambda>v. (ref, Value v)) vs"
  by (induction vs arbitrary: s) (simp_all add: useSimpleRef_next)

lemma simple_cycles_fresh:
  "simple_cycles vs (fresh h) = map (\<lambda>v. (length h, Value v)) vs"
  by (cases vs) (simp_all add: fresh_def useSimpleRef_first simple_cycles_next)

subsection \<open>useNonDisposableStableRef\<close>

lemma eager_first_function: "memo s = None \<Longrightarrow>
  useNonDisposableStableRef (Closure v) d s =
    Inr (length (heap s),
         s\<lparr>heap := heap s @ [\<lparr>memo_current = Value v, memo_dependencies = Some d\<rparr>],
           memo := Some (length (heap s)), builder_calls := builder_calls s @ [v]\<rparr>)"
  by (simp add: useNonDisposableStableRef_def useMemo_first)

lemma eager_first_other: "memo s = None \<Longrightarrow> \<not> isFunction b \<Longrightarrow>
  useNonDisposableStableRef b d s =
    Inr (length (heap s),
         s\<lparr>heap := heap s @ [\<lparr>memo_current = unique_symbol, memo_dependencies = Some d\<rparr>],
           memo := Some (length (heap s))\<rparr>)"
  by (simp add: useNonDisposableStableRef_def useMemo_first)

lemma eager_next_function:
  "memo s = Some ref \<Longrightarrow> ref < length (heap s) \<Longrightarrow>
   useNonDisposableStableRef (Closure v) d s =
     (if memo_current (heap s ! ref) = unique_symbol \<or> memo_dependencies (heap s ! ref) \<noteq> Some d
      then Inr (ref, s\<lparr>heap := (heap s)[ref := \<lparr>memo_current = Value v, memo_dependencies = Some d\<rparr>],
                       builder_calls := builder_calls s @ [v]\<rparr>)
      else Inr (ref, s\<lparr>heap := (heap s)[ref := \<lparr>memo_current = memo_current (heap s ! ref),
                                                    memo_dependencies = Some d\<rparr>]\<rparr>))"
  apply (cases "memo_dependencies (heap s ! ref)")
  apply (simp_all add: useNonDisposableStableRef_def useMemo_next)
  done

lemma eager_next_other:
  "memo s = Some ref \<Longrightarrow> \<not> isFunction b \<Longrightarrow>
   useNonDisposableStableRef b d s =
     Inr (ref, s\<lparr>heap := (heap s)[ref := \<lparr>memo_current = memo_current (heap s ! ref),
                                              memo_dependencies = Some d\<rparr>]\<rparr>)"
  by (simp add: useNonDisposableStableRef_def useMemo_next)

lemma eager_step_total:
  "memo s = Some ref \<Longrightarrow> ref < length (heap s) \<Longrightarrow>
   \<exists>s'. useNonDisposableStableRef b d s = Inr (ref, s') \<and> memo s' = Some ref \<and>
        length (heap s') = length (heap s)"
  by (cases b) (simp_all add: eager_next_function eager_next_other)

lemma eager_step_total_first:
  "memo s = None \<Longrightarrow>
   \<exists>s'. useNonDisposableStableRef b d s = Inr (length (heap s), s') \<and>
        memo s' = Some (length (heap s)) \<and> length (heap s') = Suc (length (heap s))"
  by (cases b) (simp_all add: eager_first_function eager_first_other)

lemma eager_cycles_refs_next:
  "memo s = Some ref \<Longrightarrow> ref < length (heap s) \<Longrightarrow>
   \<exists>obs. eager_cycles cs s = Inr obs \<and> map fst obs = replicate (length cs) ref"
proof (induction cs arbitrary: s)
  case Nil
  then show ?case by simp
next
  case (Cons c cs)
  obtain b d where c: "c = (b, d)" by (cases c)
  from eager_step_total[OF Cons.prems, of b d] obtain s' where
    step: "useNonDisposableStableRef b d s = Inr (ref, s')" and
    inv: "memo s' = Some ref" "length (heap s') = length (heap s)" by blast
  from Cons.IH[of s'] inv Cons.prems obtain obs where
    "eager_cycles cs s' = Inr obs" "map fst obs = replicate (length cs) ref" by auto
  with c step show ?case by simp
qed

lemma eager_cycles_refs:
  "\<exists>obs. eager_cycles cs (eager_fresh h) = Inr obs \<and>
         map fst obs = replicate (length cs) (length h)"
proof (cases cs)
  case Nil
  then show ?thesis by simp
next
  case (Cons c cs')
  obtain b d where c: "c = (b, d)" by (cases c)
  have "memo (eager_fresh h :: ('a, 'b) eager_fiber) = None" by (simp add: eager_fresh_def)
  from eager_step_total_first[OF this, of b d] obtain s' where
    step: "useNonDisposableStableRef b d (eager_fresh h) = Inr (length h, s')" and
    inv: "memo s' = Some (length h)" "length (heap s') = Suc (length h)"
    by (auto simp: eager_fresh_def)
  from eager_cycles_refs_next[of s' "length h" cs'] inv obtain obs where
    "eager_cycles cs' s' = Inr obs" "map fst obs = replicate (length cs') (length h)" by auto
  with c step Cons show ?thesis by simp
qed

lemma eager_cycles_ready:
  "memo s = Some ref \<Longrightarrow> ref < length (heap s) \<Longrightarrow>
   memo_current (heap s ! ref) = Value v \<Longrightarrow> memo_dependencies (heap s ! ref) = Some prev \<Longrightarrow>
   eager_cycles (map (\<lambda>(r, d). (Closure r, d)) cs) s =
     Inr (map (Pair ref) (eager_spec v prev (builder_calls s) cs))"
proof (induction cs arbitrary: s v prev)
  case Nil
  then show ?case by simp
next
  case (Cons c cs)
  obtain r d where c: "c = (r, d)" by (cases c)
  show ?case
  proof (cases "prev = d")
    case True
    let ?s' = "s\<lparr>heap := (heap s)[ref := \<lparr>memo_current = Value v, memo_dependencies = Some d\<rparr>]\<rparr>"
    have step: "useNonDisposableStableRef (Closure r) d s = Inr (ref, ?s')"
      using Cons.prems True by (simp add: eager_next_function)
    have "eager_cycles (map (\<lambda>(r, d). (Closure r, d)) cs) ?s' =
            Inr (map (Pair ref) (eager_spec v d (builder_calls ?s') cs))"
      using Cons.prems by (intro Cons.IH) simp_all
    with step c True Cons.prems show ?thesis by simp
  next
    case False
    let ?s' = "s\<lparr>heap := (heap s)[ref := \<lparr>memo_current = Value r, memo_dependencies = Some d\<rparr>],
                 builder_calls := builder_calls s @ [r]\<rparr>"
    have step: "useNonDisposableStableRef (Closure r) d s = Inr (ref, ?s')"
      using Cons.prems False by (simp add: eager_next_function)
    have "eager_cycles (map (\<lambda>(r, d). (Closure r, d)) cs) ?s' =
            Inr (map (Pair ref) (eager_spec r d (builder_calls ?s') cs))"
      using Cons.prems by (intro Cons.IH) simp_all
    with step c False Cons.prems show ?thesis by simp
  qed
qed

lemma eager_cycles_function:
  "eager_cycles (map (\<lambda>(r, d). (Closure r, d)) ((r0, d0) # cs)) (eager_fresh h) =
     Inr (map (Pair (length h)) ((Value r0, Some d0, [r0]) # eager_spec r0 d0 [r0] cs))"
proof -
  let ?s' = "(eager_fresh h)\<lparr>heap := h @ [\<lparr>memo_current = Value r0, memo_dependencies = Some d0\<rparr>],
               memo := Some (length h), builder_calls := [r0]\<rparr>"
  have step: "useNonDisposableStableRef (Closure r0) d0 (eager_fresh h) = Inr (length h, ?s')"
    using eager_first_function[of "eager_fresh h" r0 d0] by (simp add: eager_fresh_def)
  have "eager_cycles (map (\<lambda>(r, d). (Closure r, d)) cs) ?s' =
          Inr (map (Pair (length h)) (eager_spec r0 d0 (builder_calls ?s') cs))"
    by (intro eager_cycles_ready) simp_all
  with step show ?thesis by simp
qed

lemma eager_spec_constant:
  "eager_spec v d calls (map (\<lambda>r. (r, d)) rs) = replicate (length rs) (Value v, Some d, calls)"
  by (induction rs) simp_all

lemma eager_cycles_other_next:
  "memo s = Some ref \<Longrightarrow> ref < length (heap s) \<Longrightarrow>
   memo_current (heap s ! ref) = unique_symbol \<Longrightarrow> \<forall>c \<in> set cs. \<not> isFunction (fst c) \<Longrightarrow>
   eager_cycles cs s = Inr (map (\<lambda>c. (ref, unique_symbol, Some (snd c), builder_calls s)) cs)"
proof (induction cs arbitrary: s)
  case Nil
  then show ?case by simp
next
  case (Cons c cs)
  obtain b d where c: "c = (b, d)" by (cases c)
  let ?s' = "s\<lparr>heap := (heap s)[ref := \<lparr>memo_current = unique_symbol, memo_dependencies = Some d\<rparr>]\<rparr>"
  have step: "useNonDisposableStableRef b d s = Inr (ref, ?s')"
    using Cons.prems c by (simp add: eager_next_other)
  have "eager_cycles cs ?s' =
          Inr (map (\<lambda>c. (ref, unique_symbol, Some (snd c), builder_calls ?s')) cs)"
    using Cons.prems by (intro Cons.IH) simp_all
  with step c Cons.prems show ?case by simp
qed

lemma eager_cycles_other:
  assumes "\<forall>c \<in> set cs. \<not> isFunction (fst c)"
  shows "eager_cycles cs (eager_fresh h) =
     Inr (map (\<lambda>c. (length h, unique_symbol, Some (snd c), [])) cs)"
proof (cases cs)
  case Nil
  then show ?thesis by simp
next
  case (Cons c cs')
  obtain b d where c: "c = (b, d)" by (cases c)
  let ?s' = "(eager_fresh h)\<lparr>heap := h @ [\<lparr>memo_current = unique_symbol, memo_dependencies = Some d\<rparr>],
               memo := Some (length h)\<rparr>"
  have step: "useNonDisposableStableRef b d (eager_fresh h) = Inr (length h, ?s')"
    using eager_first_other[of "eager_fresh h" b d] assms Cons c by (simp add: eager_fresh_def)
  have "eager_cycles cs' ?s' =
          Inr (map (\<lambda>c. (length h, unique_symbol, Some (snd c), builder_calls ?s')) cs')"
    using assms Cons by (intro eager_cycles_other_next) simp_all
  with step c Cons show ?thesis by (simp add: eager_fresh_def)
qed

subsection \<open>useDisposableStableRef\<close>

lemma render_first: "memo s = None \<Longrightarrow>
  useDisposableStableRef b c d s =
    (length (heap s),
     s\<lparr>heap := heap s @ [\<lparr>wrapper_current = unique_symbol, isInitialized = False\<rparr>],
       memo := Some (length (heap s)), pending := Some (b, c, length (heap s), d)\<rparr>)"
  by (simp add: useDisposableStableRef_def useMemo_first)

lemma render_next: "memo s = Some ref \<Longrightarrow>
  useDisposableStableRef b c d s = (ref, s\<lparr>pending := Some (b, c, ref, d)\<rparr>)"
  by (simp add: useDisposableStableRef_def useMemo_next)

lemma exec_renders_next:
  "memo s = Some ref \<Longrightarrow>
   exec (map render_of rs) s =
     Inr (replicate (length rs) ref,
          if rs = [] then s
          else s\<lparr>pending := Some (fst (last rs), fst (snd (last rs)), ref, snd (snd (last rs)))\<rparr>)"
proof (induction rs arbitrary: s)
  case Nil
  then show ?case by simp
next
  case (Cons x rs)
  obtain b c d where x: "x = (b, c, d)" by (cases x)
  have "memo (s\<lparr>pending := Some (b, c, ref, d)\<rparr>) = Some ref" using Cons.prems by simp
  from Cons.IH[OF this] Cons.prems x show ?case
    by (simp add: render_next)
qed

lemma exec_renders_first:
  "memo s = None \<Longrightarrow> rs \<noteq> [] \<Longrightarrow>
   exec (map render_of rs) s =
     Inr (replicate (length rs) (length (heap s)),
          s\<lparr>heap := heap s @ [\<lparr>wrapper_current = unique_symbol, isInitialized = False\<rparr>],
            memo := Some (length (heap s)),
            pending := Some (fst (last rs), fst (snd (last rs)), length (heap s), snd (snd (last rs)))\<rparr>)"
proof -
  assume m: "memo s = None" and ne: "rs \<noteq> []"
  then obtain b c d rs' where rs: "rs = (b, c, d) # rs'" by (cases rs) auto
  let ?s1 = "s\<lparr>heap := heap s @ [\<lparr>wrapper_current = unique_symbol, isInitialized = False\<rparr>],
       memo := Some (length (heap s)), pending := Some (b, c, length (heap s), d)\<rparr>"
  have "memo ?s1 = Some (length (heap s))" by simp
  from exec_renders_next[OF this, of rs'] m rs show ?thesis
    by (simp add: render_first)
qed

lemma exec_append:
  "exec (xs @ ys) s =
     (case exec xs s of
        Inl e \<Rightarrow> Inl e
      | Inr (refs1, s1) \<Rightarrow>
          (case exec ys s1 of Inl e \<Rightarrow> Inl e | Inr (refs2, s2) \<Rightarrow> Inr (refs1 @ refs2, s2)))"
proof (induction xs arbitrary: s)
  case Nil
  then show ?case by (simp split: sum.splits prod.splits)
next
  case (Cons a xs)
  then show ?case
    by (cases a) (auto split: sum.splits prod.splits option.splits)
qed

lemma commit_memo:
  "commit s = Inr s' \<Longrightarrow> memo s' = memo s \<and> length (heap s') = length (heap s)"
  by (auto simp: commit_def run_effect_def run_destructor_def set_current_def Let_def
      split: option.splits prod.splits if_splits sum.splits)

lemma unmount_memo:
  "unmount s = Inr s' \<Longrightarrow> memo s' = memo s \<and> length (heap s') = length (heap s)"
  by (auto simp: unmount_def run_destructor_def set_current_def
      split: option.splits prod.splits)

lemma set_current_memo:
  "set_current ref v s = Inr s' \<Longrightarrow> memo s' = memo s \<and> length (heap s') = length (heap s)"
  by (auto simp: set_current_def)

lemma exec_refs_next:
  "memo s = Some ref \<Longrightarrow> exec acts s = Inr (refs, s') \<Longrightarrow>
   refs = replicate (length refs) ref \<and> memo s' = Some ref"
proof (induction acts arbitrary: s refs)
  case Nil
  then show ?case by simp
next
  case (Cons a acts)
  show ?case
  proof (cases a)
    case (Render b c d)
    with Cons.prems obtain refs' where
      e: "exec acts (s\<lparr>pending := Some (b, c, ref, d)\<rparr>) = Inr (refs', s')" and
      r: "refs = ref # refs'"
      by (auto simp: render_next split: sum.splits)
    from Cons.IH[OF _ e] Cons.prems(1) r show ?thesis by simp
  next
    case Commit
    with Cons.prems obtain s1 where c: "commit s = Inr s1" and e: "exec acts s1 = Inr (refs, s')"
      by (auto split: sum.splits)
    from commit_memo[OF c] Cons.prems(1) have "memo s1 = Some ref" by simp
    from Cons.IH[OF this e] show ?thesis .
  next
    case Unmount
    with Cons.prems obtain s1 where c: "unmount s = Inr s1" and e: "exec acts s1 = Inr (refs, s')"
      by (auto split: sum.splits)
    from unmount_memo[OF c] Cons.prems(1) have "memo s1 = Some ref" by simp
    from Cons.IH[OF this e] show ?thesis .
  next
    case (Assign v)
    with Cons.prems obtain s1 where c: "set_current ref v s = Inr s1" and
      e: "exec acts s1 = Inr (refs, s')"
      by (auto split: sum.splits)
    from set_current_memo[OF c] Cons.prems(1) have "memo s1 = Some ref" by simp
    from Cons.IH[OF this e] show ?thesis .
  qed
qed

lemma exec_refs_first:
  "memo s = None \<Longrightarrow> exec acts s = Inr (refs, s') \<Longrightarrow>
   refs = replicate (length refs) (length (heap s)) \<and>
   (refs \<noteq> [] \<longrightarrow> memo s' = Some (length (heap s)))"
proof (induction acts arbitrary: s refs)
  case Nil
  then show ?case by simp
next
  case (Cons a acts)
  show ?case
  proof (cases a)
    case (Render b c d)
    let ?s1 = "s\<lparr>heap := heap s @ [\<lparr>wrapper_current = unique_symbol, isInitialized = False\<rparr>],
       memo := Some (length (heap s)), pending := Some (b, c, length (heap s), d)\<rparr>"
    from Render Cons.prems obtain refs' where
      e: "exec acts ?s1 = Inr (refs', s')" and r: "refs = length (heap s) # refs'"
      by (auto simp: render_first split: sum.splits)
    have "memo ?s1 = Some (length (heap s))" by simp
    from exec_refs_next[OF this e] r show ?thesis by simp
  next
    case Commit
    with Cons.prems obtain s1 where c: "commit s = Inr s1" and e: "exec acts s1 = Inr (refs, s')"
      by (auto split: sum.splits)
    from commit_memo[OF c] Cons.prems(1) have "memo s1 = None" "length (heap s1) = length (heap s)"
      by simp_all
    with Cons.IH[OF _ e] show ?thesis by simp
  next
    case Unmount
    with Cons.prems obtain s1 where c: "unmount s = Inr s1" and e: "exec acts s1 = Inr (refs, s')"
      by (auto split: sum.splits)
    from unmount_memo[OF c] Cons.prems(1) have "memo s1 = None" "length (heap s1) = length (heap s)"
      by simp_all
    with Cons.IH[OF _ e] show ?thesis by simp
  next
    case (Assign v)
    with Cons.prems have "exec acts s = Inr (refs, s')" by simp
    from Cons.IH[OF Cons.prems(1) this] show ?thesis .
  qed
qed

text \<open>Commits and teardown of a mounted call site.\<close>

lemma commit_mount:
  assumes "memo s = Some ref" "ref < length (heap s)"
    "pending s = Some (Closure r, c, ref, d)" "effect s = None"
  shows "\<exists>s'. commit s = Inr s' \<and> mounted ref d r c s' \<and>
              trace s' = trace s @ [BuilderCalled r, CurrentSet r]"
  using assms by (simp add: commit_def run_effect_def set_current_def mounted_def)

lemma commit_same:
  assumes "mounted ref de v c0 s" "pending s = Some (Closure r, c, ref, de)"
  shows "\<exists>s'. commit s = Inr s' \<and> mounted ref de v c s' \<and> trace s' = trace s"
  using assms by (simp add: commit_def mounted_def)

lemma commit_changed:
  assumes "mounted ref de v c0 s" "pending s = Some (Closure r, c, ref, d)" "de \<noteq> d"
  shows "\<exists>s'. commit s = Inr s' \<and> mounted ref d r c s' \<and>
              trace s' = trace s @ [CleanupCalled c v, CurrentSet Null, BuilderCalled r, CurrentSet r]"
  using assms
  by (simp add: commit_def run_destructor_def run_effect_def set_current_def mounted_def)

lemma unmount_mounted:
  assumes "mounted ref de v c s"
  shows "\<exists>s'. unmount s = Inr s' \<and> effect s' = None \<and> memo s' = Some ref \<and>
              heap s' ! ref = \<lparr>wrapper_current = Value Null, isInitialized = True\<rparr> \<and>
              trace s' = trace s @ [CleanupCalled c v, CurrentSet Null]"
  using assms by (simp add: unmount_def run_destructor_def set_current_def mounted_def)

lemma mounted_pending [simp]: "mounted ref de v c (s\<lparr>pending := p\<rparr>) = mounted ref de v c s"
  by (simp add: mounted_def)

lemma cycle_mounted:
  assumes "mounted ref de v c0 s"
  shows "\<exists>s'. exec (cycle_actions (discarded, (r, c, d))) s =
                Inr (replicate (Suc (length discarded)) ref, s') \<and>
              mounted ref d (if de = d then v else r) c s' \<and>
              trace s' = trace s @
                (if de = d then []
                 else [CleanupCalled c v, CurrentSet Null, BuilderCalled r, CurrentSet r])"
proof -
  let ?rs = "discarded @ [(Closure r, c, d)]"
  let ?s1 = "s\<lparr>pending := Some (Closure r, c, ref, d)\<rparr>"
  have m: "memo s = Some ref" using assms by (simp add: mounted_def)
  have acts: "cycle_actions (discarded, (r, c, d)) = map render_of ?rs @ [Commit]" by simp
  have renders: "exec (map render_of ?rs) s = Inr (replicate (length ?rs) ref, ?s1)"
    using exec_renders_next[OF m, of ?rs] by simp
  have m1: "mounted ref de v c0 ?s1" using assms by simp
  show ?thesis
  proof (cases "de = d")
    case True
    from commit_same[OF m1, of r c] True obtain s' where
      "commit ?s1 = Inr s'" "mounted ref d v c s'" "trace s' = trace s" by auto
    with True renders show ?thesis
      unfolding acts exec_append by (simp add: replicate_append_same)
  next
    case False
    from commit_changed[OF m1 _ False, of r c] obtain s' where
      "commit ?s1 = Inr s'" "mounted ref d r c s'"
      "trace s' = trace s @ [CleanupCalled c v, CurrentSet Null, BuilderCalled r, CurrentSet r]"
      by auto
    with False renders show ?thesis
      unfolding acts exec_append by (simp add: replicate_append_same)
  qed
qed

lemma cycle_fresh:
  assumes "memo s = None" "effect s = None"
  shows "\<exists>s'. exec (cycle_actions (discarded, (r, c, d))) s =
                Inr (replicate (Suc (length discarded)) (length (heap s)), s') \<and>
              mounted (length (heap s)) d r c s' \<and>
              trace s' = trace s @ [BuilderCalled r, CurrentSet r]"
proof -
  let ?rs = "discarded @ [(Closure r, c, d)]"
  let ?s1 = "s\<lparr>heap := heap s @ [\<lparr>wrapper_current = unique_symbol, isInitialized = False\<rparr>],
            memo := Some (length (heap s)),
            pending := Some (Closure r, c, length (heap s), d)\<rparr>"
  have acts: "cycle_actions (discarded, (r, c, d)) = map render_of ?rs @ [Commit]" by simp
  have renders: "exec (map render_of ?rs) s = Inr (replicate (length ?rs) (length (heap s)), ?s1)"
    using exec_renders_first[OF assms(1), of ?rs] by simp
  from commit_mount[of ?s1 "length (heap s)" r c d] assms(2) obtain s' where
    "commit ?s1 = Inr s'" "mounted (length (heap s)) d r c s'"
    "trace s' = trace s @ [BuilderCalled r, CurrentSet r]" by auto
  with renders show ?thesis
    unfolding acts exec_append by (simp add: replicate_append_same)
qed

lemma lifecycle_mounted:
  assumes "mounted ref de v c0 s"
  shows "\<exists>refs s'. exec (concat (map cycle_actions cycles) @ [Unmount]) s = Inr (refs, s') \<and>
           refs = replicate (length refs) ref \<and>
           effect s' = None \<and> memo s' = Some ref \<and>
           heap s' ! ref = \<lparr>wrapper_current = Value Null, isInitialized = True\<rparr> \<and>
           trace s' = trace s @ lifecycle_trace v c0 de (map snd cycles)"
  using assms
proof (induction cycles arbitrary: s v c0 de)
  case Nil
  from unmount_mounted[OF Nil] show ?case by auto
next
  case (Cons cyc cycles)
  obtain discarded r c d where cyc: "cyc = (discarded, (r, c, d))" by (cases cyc) auto
  from cycle_mounted[OF Cons.prems, of discarded r c d] obtain s1 where
    step: "exec (cycle_actions (discarded, (r, c, d))) s =
             Inr (replicate (Suc (length discarded)) ref, s1)" and
    m1: "mounted ref d (if de = d then v else r) c s1" and
    t1: "trace s1 = trace s @
           (if de = d then []
            else [CleanupCalled c v, CurrentSet Null, BuilderCalled r, CurrentSet r])"
    by blast
  from Cons.IH[OF m1] obtain refs s' where
    rest: "exec (concat (map cycle_actions cycles) @ [Unmount]) s1 = Inr (refs, s')" and
    props: "refs = replicate (length refs) ref"
      "effect s' = None" "memo s' = Some ref"
      "heap s' ! ref = \<lparr>wrapper_current = Value Null, isInitialized = True\<rparr>"
      "trace s' = trace s1 @ lifecycle_trace (if de = d then v else r) c d (map snd cycles)"
    by blast
  have "exec (concat (map cycle_actions (cyc # cycles)) @ [Unmount]) s =
          Inr (replicate (Suc (length discarded)) ref @ refs, s')"
    using step rest cyc by (simp add: exec_append del: cycle_actions.simps)
  moreover have "replicate (Suc (length discarded)) ref @ refs =
      replicate (length (replicate (Suc (length discarded)) ref @ refs)) ref"
    using props(1) by (metis length_append length_replicate replicate_add)
  ultimately show ?case using props t1 cyc
    by (auto simp del: cycle_actions.simps)
qed

lemma disciplined_lifecycle_trace: "disciplined (Some v) (lifecycle_trace v c0 de cs)"
  by (induction cs arbitrary: v c0 de) auto

lemma built_append [simp]: "built (xs @ ys) = built xs @ built ys"
  by (induction xs rule: built.induct) simp_all

lemma cleaned_append [simp]: "cleaned (xs @ ys) = cleaned xs @ cleaned ys"
  by (induction xs rule: cleaned.induct) simp_all

lemma built_lifecycle_trace: "built (lifecycle_trace v c0 de cs) = changed de cs"
  by (induction cs arbitrary: v c0 de) auto

lemma cleaned_lifecycle_trace: "cleaned (lifecycle_trace v c0 de cs) = v # changed de cs"
  by (induction cs arbitrary: v c0 de) auto

text \<open>Before the first commit.\<close>

lemma uninitialized_exec:
  "uninitialized s \<Longrightarrow> Commit \<notin> set acts \<Longrightarrow>
   \<exists>refs s'. exec acts s = Inr (refs, s') \<and> uninitialized s'"
proof (induction acts arbitrary: s)
  case Nil
  then show ?case by simp
next
  case (Cons a acts)
  show ?case
  proof (cases a)
    case (Render b c d)
    obtain ref s1 where r: "useDisposableStableRef b c d s = (ref, s1)" by force
    have "uninitialized s1"
      using r Cons.prems(1)
      by (cases "memo s") (auto simp: uninitialized_def render_first render_next)
    from Cons.IH[OF this] Cons.prems(2) obtain refs s' where
      "exec acts s1 = Inr (refs, s')" "uninitialized s'" by auto
    with r Render show ?thesis by simp
  next
    case Commit
    with Cons.prems show ?thesis by simp
  next
    case Unmount
    have "unmount s = Inr s" using Cons.prems(1) by (simp add: unmount_def uninitialized_def)
    with Cons.IH[OF Cons.prems(1)] Cons.prems(2) Unmount show ?thesis by simp
  next
    case (Assign v)
    show ?thesis
    proof (cases "memo s")
      case None
      with Cons.IH[OF Cons.prems(1)] Cons.prems(2) Assign show ?thesis by simp
    next
      case (Some ref)
      let ?s1 = "s\<lparr>heap := (heap s)[ref := (heap s ! ref)\<lparr>wrapper_current := Value v\<rparr>],
            trace := trace s @ [CurrentSet v]\<rparr>"
      have "uninitialized ?s1" using Cons.prems(1) Some by (simp add: uninitialized_def)
      from Cons.IH[OF this] Cons.prems(2) obtain refs s' where
        "exec acts ?s1 = Inr (refs, s')" "uninitialized s'" by auto
      with Some Assign show ?thesis by (simp add: set_current_def)
    qed
  qed
qed

lemma uninitialized_fresh: "uninitialized (disposable_fresh h)"
  by (simp add: uninitialized_def disposable_fresh_def)

text \<open>
  No run makes the accessor take its second \<open>throw\<close>: once \<open>isInitialized\<close> is set the
  slot never holds the symbol again.
\<close>

lemma guarded_set_current:
  assumes "guarded s" "set_current ref v s = Inr s'"
  shows "guarded s'"
proof -
  have s': "s' = s\<lparr>heap := (heap s)[ref := (heap s ! ref)\<lparr>wrapper_current := Value v\<rparr>],
                   trace := trace s @ [CurrentSet v]\<rparr>"
    using assms(2) by (simp add: set_current_def)
  have "cell_ok ((heap s ! ref)\<lparr>wrapper_current := Value v\<rparr>)" by (simp add: cell_ok_def)
  with assms(1) show ?thesis
    unfolding s' guarded_def by (auto intro: nth_update_cases)
qed

lemma guarded_initialize:
  assumes "guarded s" "wrapper_current (heap s ! ref) \<noteq> unique_symbol \<or> length (heap s) \<le> ref"
  shows "guarded (s\<lparr>heap := (heap s)[ref := (heap s ! ref)\<lparr>isInitialized := True\<rparr>]\<rparr>)"
proof -
  have "cell_ok (heap s ! i) \<Longrightarrow> i < length (heap s) \<Longrightarrow>
      cell_ok ((heap s)[ref := (heap s ! ref)\<lparr>isInitialized := True\<rparr>] ! i)" for i
    using assms(2) by (cases "i = ref") (auto simp: cell_ok_def)
  with assms(1) show ?thesis by (auto simp: guarded_def)
qed

lemma guarded_run_effect:
  assumes "guarded s" "run_effect ref d s = Inr s'"
  shows "guarded s'"
proof -
  from assms(2) obtain cur where
    s': "s' = (let s1 = s\<lparr>trace := trace s @ [BuilderCalled cur],
                          heap := (heap s)[ref := (heap s ! ref)\<lparr>wrapper_current := Value cur\<rparr>],
                          trace := trace s @ [BuilderCalled cur] @ [CurrentSet cur]\<rparr>
               in s1\<lparr>heap := (heap s1)[ref := (heap s1 ! ref)\<lparr>isInitialized := True\<rparr>],
                      effect := Some (RefDep ref # map Dep d, ref, cur)\<rparr>)"
    by (auto simp: run_effect_def set_current_def split: option.splits sum.splits)
  let ?s0 = "s\<lparr>trace := trace s @ [BuilderCalled cur]\<rparr>"
  obtain s1 where s1: "set_current ref cur ?s0 = Inr s1" by (simp add: set_current_def)
  have g0: "guarded ?s0" using assms(1) by (simp add: guarded_def)
  have g1: "guarded s1" by (rule guarded_set_current[OF g0 s1])
  have "wrapper_current (heap s1 ! ref) \<noteq> unique_symbol \<or> length (heap s1) \<le> ref"
    using s1 by (cases "ref < length (heap s)") (auto simp: set_current_def)
  from guarded_initialize[OF g1 this]
  have "guarded (s1\<lparr>heap := (heap s1)[ref := (heap s1 ! ref)\<lparr>isInitialized := True\<rparr>]\<rparr>)" .
  then have "guarded (s1\<lparr>heap := (heap s1)[ref := (heap s1 ! ref)\<lparr>isInitialized := True\<rparr>],
                       effect := Some (RefDep ref # map Dep d, ref, cur)\<rparr>)"
    by (simp add: guarded_def)
  moreover have "s' = s1\<lparr>heap := (heap s1)[ref := (heap s1 ! ref)\<lparr>isInitialized := True\<rparr>],
                       effect := Some (RefDep ref # map Dep d, ref, cur)\<rparr>"
    using s' s1 by (auto simp: set_current_def Let_def)
  ultimately show ?thesis by simp
qed

lemma guarded_run_destructor:
  assumes "guarded s" "run_destructor ref v s = Inr s'"
  shows "guarded s'"
proof -
  let ?s0 = "case stableCleanup s of None \<Rightarrow> s
             | Some c \<Rightarrow> s\<lparr>trace := trace s @ [CleanupCalled c v]\<rparr>"
  have "guarded ?s0" using assms(1) by (cases "stableCleanup s") (simp_all add: guarded_def)
  moreover have "set_current ref Null ?s0 = Inr s'" using assms(2) by (simp add: run_destructor_def)
  ultimately show ?thesis by (rule guarded_set_current)
qed

lemma guarded_commit: "guarded s \<Longrightarrow> commit s = Inr s' \<Longrightarrow> guarded s'"
proof -
  assume g: "guarded s" and c: "commit s = Inr s'"
  show ?thesis
  proof (cases "pending s")
    case None
    with c g show ?thesis by (simp add: commit_def)
  next
    case (Some p)
    obtain b cl ref d where p: "p = (b, cl, ref, d)" by (cases p) auto
    let ?s1 = "s\<lparr>stableBuilder := Some b, stableCleanup := Some cl\<rparr>"
    have g1: "guarded ?s1" using g by (simp add: guarded_def)
    show ?thesis
    proof (cases "effect s")
      case None
      with c Some p have "run_effect ref d ?s1 = Inr s'" by (simp add: commit_def)
      from guarded_run_effect[OF g1 this] show ?thesis .
    next
      case (Some e)
      obtain deps ref' cur where e: "e = (deps, ref', cur)" by (cases e) auto
      show ?thesis
      proof (cases "shallowCompare (Some deps) (Some (RefDep ref # map Dep d))")
        case True
        with c \<open>pending s = Some p\<close> p Some e have "s' = ?s1" by (simp add: commit_def)
        with g1 show ?thesis by simp
      next
        case False
        with c \<open>pending s = Some p\<close> p Some e obtain s2 where
          d: "run_destructor ref' cur ?s1 = Inr s2" and r: "run_effect ref d s2 = Inr s'"
          by (auto simp: commit_def split: sum.splits)
        from guarded_run_effect[OF guarded_run_destructor[OF g1 d] r] show ?thesis .
      qed
    qed
  qed
qed

lemma guarded_unmount: "guarded s \<Longrightarrow> unmount s = Inr s' \<Longrightarrow> guarded s'"
proof -
  assume g: "guarded s" and u: "unmount s = Inr s'"
  show ?thesis
  proof (cases "effect s")
    case None
    with u g show ?thesis by (simp add: unmount_def)
  next
    case (Some e)
    obtain deps ref cur where e: "e = (deps, ref, cur)" by (cases e) auto
    have g1: "guarded (s\<lparr>effect := None\<rparr>)" using g by (simp add: guarded_def)
    from u Some e have "run_destructor ref cur (s\<lparr>effect := None\<rparr>) = Inr s'"
      by (simp add: unmount_def)
    from guarded_run_destructor[OF g1 this] show ?thesis .
  qed
qed

lemma guarded_render:
  "guarded s \<Longrightarrow> useDisposableStableRef b c d s = (ref, s') \<Longrightarrow> guarded s'"
  by (cases "memo s") (auto simp: guarded_def cell_ok_def render_first render_next nth_append)

lemma guarded_exec: "guarded s \<Longrightarrow> exec acts s = Inr (refs, s') \<Longrightarrow> guarded s'"
proof (induction acts arbitrary: s refs)
  case Nil
  then show ?case by simp
next
  case (Cons a acts)
  show ?case
  proof (cases a)
    case (Render b c d)
    obtain ref s1 where r: "useDisposableStableRef b c d s = (ref, s1)" by force
    with Render Cons.prems obtain refs' where e: "exec acts s1 = Inr (refs', s')"
      by (auto split: sum.splits)
    from Cons.IH[OF guarded_render[OF Cons.prems(1) r] e] show ?thesis .
  next
    case Commit
    with Cons.prems obtain s1 where c: "commit s = Inr s1" and e: "exec acts s1 = Inr (refs, s')"
      by (auto split: sum.splits)
    from Cons.IH[OF guarded_commit[OF Cons.prems(1) c] e] show ?thesis .
  next
    case Unmount
    with Cons.prems obtain s1 where c: "unmount s = Inr s1" and e: "exec acts s1 = Inr (refs, s')"
      by (auto split: sum.splits)
    from Cons.IH[OF guarded_unmount[OF Cons.prems(1) c] e] show ?thesis .
  next
    case (Assign v)
    show ?thesis
    proof (cases "memo s")
      case None
      with Assign Cons.prems have "exec acts s = Inr (refs, s')" by simp
      from Cons.IH[OF Cons.prems(1) this] show ?thesis .
    next
      case (Some ref)
      with Assign Cons.prems obtain s1 where c: "set_current ref v s = Inr s1" and
        e: "exec acts s1 = Inr (refs, s')"
        by (auto split: sum.splits)
      from Cons.IH[OF guarded_set_current[OF Cons.prems(1) c] e] show ?thesis .
    qed
  qed
qed

lemma disposed_never_raised:
  assumes "exec acts (disposable_fresh h) = Inr (refs, s)" "ref \<in> set refs"
  shows "get_current ref s \<noteq> Inl Disposed"
proof -
  have "guarded (disposable_fresh h :: ('a, 'b, 'c) disposable_fiber)"
    by (simp add: guarded_def disposable_fresh_def)
  from guarded_exec[OF this assms(1)] have g: "guarded s" .
  have "memo (disposable_fresh h :: ('a, 'b, 'c) disposable_fiber) = None"
    by (simp add: disposable_fresh_def)
  from exec_refs_first[OF this assms(1)] assms(2) have
    "ref = length h" "memo s = Some (length h)"
    by (auto simp: disposable_fresh_def dest: arg_cong[where f = set])
  with g show ?thesis by (auto simp: guarded_def cell_ok_def get_current_def Let_def split: if_splits)
qed

section \<open>Cleanup exactly once, before the replacement (C1)\<close>

text \<open>
  C1. In deferred rebuild-with-cleanup mode, for every sequence of committed cycles
  (each with any number of discarded compute phases) followed by the teardown of the
  owning scope, starting from a fresh call site: the run succeeds; its log is
  disciplined, that is, every cleanup is invoked with exactly the value that is
  installed and being replaced, once, before the builder of the replacement is invoked
  and its result installed, and the last installed value is cleaned up at the teardown,
  after which the log ends (no builder is invoked after it); the builders invoked are
  exactly those of the first cycle and of the cycles whose dependencies changed, and
  the cleanups received exactly the values built, in the same order.
\<close>

theorem cleanup_discipline:
  "\<exists>refs s. exec (lifecycle cycles) (disposable_fresh h) = Inr (refs, s) \<and>
      disciplined None (trace s) \<and>
      built (trace s) = rebuilt (map snd cycles) \<and>
      cleaned (trace s) = rebuilt (map snd cycles) \<and>
      effect s = None"
proof (cases cycles)
  case Nil
  then show ?thesis
    by (simp add: lifecycle_def unmount_def disposable_fresh_def)
next
  case (Cons cyc cycles')
  obtain discarded r c d where cyc: "cyc = (discarded, (r, c, d))" by (cases cyc) auto
  let ?s0 = "disposable_fresh h :: ('a, 'b, 'c) disposable_fiber"
  have "memo ?s0 = None" "effect ?s0 = None" by (simp_all add: disposable_fresh_def)
  from cycle_fresh[OF this, of discarded r c d] obtain s1 where
    step: "exec (cycle_actions (discarded, (r, c, d))) ?s0 =
             Inr (replicate (Suc (length discarded)) (length h), s1)" and
    m1: "mounted (length h) d r c s1" and
    t1: "trace s1 = [BuilderCalled r, CurrentSet r]"
    by (auto simp: disposable_fresh_def)
  from lifecycle_mounted[OF m1, of cycles'] obtain refs s' where
    rest: "exec (concat (map cycle_actions cycles') @ [Unmount]) s1 = Inr (refs, s')" and
    e: "effect s' = None" and
    t: "trace s' = trace s1 @ lifecycle_trace r c d (map snd cycles')"
    by blast
  have run: "exec (lifecycle cycles) ?s0 =
          Inr (replicate (Suc (length discarded)) (length h) @ refs, s')"
    using step rest cyc Cons by (simp add: lifecycle_def exec_append del: cycle_actions.simps)
  have "disciplined None (trace s')"
    using t t1 disciplined_lifecycle_trace[of r c d "map snd cycles'"] by simp
  moreover have "built (trace s') = rebuilt (map snd cycles)"
    using t t1 Cons cyc by (simp add: built_lifecycle_trace)
  moreover have "cleaned (trace s') = rebuilt (map snd cycles)"
    using t t1 Cons cyc by (simp add: cleaned_lifecycle_trace)
  ultimately show ?thesis using run e by blast
qed

theorem cleanup_discipline_witness:
  "\<exists>s. exec [Render (Closure (Plain (1::nat))) () [1::nat], Commit,
            Render (Closure (Plain 2)) () [1], Commit,
            Render (Closure (Plain 3)) () [2], Commit, Unmount] (disposable_fresh []) =
         Inr ([0, 0, 0], s) \<and>
       trace s = [BuilderCalled (Plain 1), CurrentSet (Plain 1),
                  CleanupCalled () (Plain 1), CurrentSet Null,
                  BuilderCalled (Plain 3), CurrentSet (Plain 3),
                  CleanupCalled () (Plain 3), CurrentSet Null]"
  using cleanup_discipline[of
      "[([], (Plain (1::nat), (), [1::nat])), ([], (Plain 2, (), [1])), ([], (Plain 3, (), [2]))]"
      "[]"]
  by (auto simp: lifecycle_def disposable_fresh_def useDisposableStableRef_def useMemo_def
      commit_def unmount_def run_effect_def run_destructor_def set_current_def
      split: sum.splits)

section \<open>The identity of the cell (C2)\<close>

text \<open>
  C2. In each of the three modes, every cycle at a call site returns the same
  reference: the address allocated by the first compute phase. For \<open>useSimpleRef\<close> and
  \<open>useNonDisposableStableRef\<close> this holds for every sequence of arguments (values,
  builders and dependencies may change from cycle to cycle); for
  \<open>useDisposableStableRef\<close> for every run of compute phases, commits, teardown and
  assignments.
\<close>

theorem cell_identity_stable:
  "map fst (simple_cycles vs (fresh h1)) = replicate (length vs) (length h1) \<and>
   (\<exists>obs. eager_cycles cs (eager_fresh h2) = Inr obs \<and>
          map fst obs = replicate (length cs) (length h2)) \<and>
   (\<forall>refs s. exec (acts :: ('a, 'c, 'd) action list) (disposable_fresh h3) = Inr (refs, s) \<longrightarrow>
          refs = replicate (length refs) (length h3))"
proof (intro conjI allI impI)
  show "map fst (simple_cycles vs (fresh h1)) = replicate (length vs) (length h1)"
    by (simp add: simple_cycles_fresh map_replicate_const comp_def)
next
  show "\<exists>obs. eager_cycles cs (eager_fresh h2) = Inr obs \<and>
          map fst obs = replicate (length cs) (length h2)"
    by (rule eager_cycles_refs)
next
  fix refs and s :: "('a, 'c, 'd) disposable_fiber"
  assume e: "exec acts (disposable_fresh h3) = Inr (refs, s)"
  have "memo (disposable_fresh h3 :: ('a, 'c, 'd) disposable_fiber) = None"
    by (simp add: disposable_fresh_def)
  from exec_refs_first[OF this e] show "refs = replicate (length refs) (length h3)"
    by (simp add: disposable_fresh_def)
qed

theorem cell_identity_stable_witness:
  "map fst (simple_cycles [Plain (1::nat), Plain 2, Null] (fresh [])) = [0, 0, 0] \<and>
   (\<exists>obs. eager_cycles [(Closure (Plain (1::nat)), [1::nat]), (Closure (Plain 2), [2])]
            (eager_fresh []) = Inr obs \<and> map fst obs = [0, 0]) \<and>
   (\<exists>s. exec [Render (Closure (Plain (1::nat))) () [1::nat], Commit,
              Render (Closure (Plain 2)) () [2], Commit] (disposable_fresh []) = Inr ([0, 0], s))"
  using cell_identity_stable[of "[Plain (1::nat), Plain 2, Null]" "[]"
      "[(Closure (Plain (1::nat)), [1::nat]), (Closure (Plain 2), [2])]" "[]"
      "[Render (Closure (Plain (1::nat))) () [1::nat], Commit,
        Render (Closure (Plain 2)) () [2], Commit]" "[]"]
  by (auto simp: numeral_eq_Suc useDisposableStableRef_def useMemo_def disposable_fresh_def
      commit_def run_effect_def run_destructor_def set_current_def
      split: sum.splits)

section \<open>Reading before the first commit (C3)\<close>

text \<open>
  C3. In deferred rebuild-with-cleanup mode, after any run without a commit (compute
  phases with any arguments, assignments to the cell, a teardown), a read of \<open>current\<close>
  through any reference the hook has returned raises the error
  "Stable ref is not available during render phase." and returns no value.
\<close>

theorem read_before_first_commit_raises:
  assumes "Commit \<notin> set acts"
  shows "\<exists>refs s. exec acts (disposable_fresh h) = Inr (refs, s) \<and>
           (\<forall>ref \<in> set refs. get_current ref s = Inl NotAvailableDuringRender)"
proof -
  from uninitialized_exec[OF uninitialized_fresh assms] obtain refs s where
    e: "exec acts (disposable_fresh h) = Inr (refs, s)" and u: "uninitialized s" by blast
  have "memo (disposable_fresh h) = None" by (simp add: disposable_fresh_def)
  from exec_refs_first[OF this e] have
    r: "refs = replicate (length refs) (length h)" and
    m: "refs \<noteq> [] \<longrightarrow> memo s = Some (length h)"
    by (simp_all add: disposable_fresh_def)
  have "get_current ref s = Inl NotAvailableDuringRender" if "ref \<in> set refs" for ref
  proof -
    from that r have "ref = length h" by (metis in_set_replicate)
    moreover from that m have "memo s = Some (length h)" by auto
    ultimately show ?thesis using u by (simp add: uninitialized_def get_current_def)
  qed
  with e show ?thesis by blast
qed

theorem read_before_first_commit_raises_witness:
  "\<exists>s. exec [Render (Closure (Plain (1::nat))) () [2::nat], Assign (Plain 7),
            Render (Closure (Plain 1)) () [3]] (disposable_fresh []) = Inr ([0, 0], s) \<and>
       get_current 0 s = Inl NotAvailableDuringRender"
  using read_before_first_commit_raises[of
      "[Render (Closure (Plain (1::nat))) () [2::nat], Assign (Plain 7),
        Render (Closure (Plain 1)) () [3]]" "[]"]
  by (simp add: disposable_fresh_def useDisposableStableRef_def useMemo_def set_current_def
      split: sum.splits)

section \<open>Reading after the teardown (C4)\<close>

text \<open>
  C4. In deferred rebuild-with-cleanup mode, after a lifecycle of at least one committed
  cycle and the teardown, a read of \<open>current\<close> does not raise: the destructor has
  assigned \<open>null\<close>, \<open>isInitialized\<close> is still set, and the accessor returns \<open>null\<close>.
\<close>

theorem read_after_teardown_returns_null:
  assumes "cycles \<noteq> []"
  shows "\<exists>refs s. exec (lifecycle cycles) (disposable_fresh h) = Inr (refs, s) \<and>
      refs \<noteq> [] \<and> (\<forall>ref \<in> set refs. get_current ref s = Inr (Value Null))"
proof -
  from assms obtain cyc cycles' where Cons: "cycles = cyc # cycles'" by (cases cycles) auto
  obtain discarded r c d where cyc: "cyc = (discarded, (r, c, d))" by (cases cyc) auto
  let ?s0 = "disposable_fresh h :: ('a, 'b, 'c) disposable_fiber"
  have "memo ?s0 = None" "effect ?s0 = None" by (simp_all add: disposable_fresh_def)
  from cycle_fresh[OF this, of discarded r c d] obtain s1 where
    step: "exec (cycle_actions (discarded, (r, c, d))) ?s0 =
             Inr (replicate (Suc (length discarded)) (length h), s1)" and
    m1: "mounted (length h) d r c s1"
    by (auto simp: disposable_fresh_def)
  from lifecycle_mounted[OF m1, of cycles'] obtain refs s' where
    rest: "exec (concat (map cycle_actions cycles') @ [Unmount]) s1 = Inr (refs, s')" and
    r: "refs = replicate (length refs) (length h)" and
    w: "heap s' ! length h = \<lparr>wrapper_current = Value Null, isInitialized = True\<rparr>"
    by blast
  let ?refs = "replicate (Suc (length discarded)) (length h) @ refs"
  have run: "exec (lifecycle cycles) ?s0 = Inr (?refs, s')"
    using step rest cyc Cons by (simp add: lifecycle_def exec_append del: cycle_actions.simps)
  have "get_current ref s' = Inr (Value Null)" if "ref \<in> set ?refs" for ref
  proof -
    from that r have "ref = length h"
      by (metis Un_iff in_set_replicate set_append)
    with w show ?thesis by (simp add: get_current_def)
  qed
  with run show ?thesis by (intro exI[of _ ?refs] exI[of _ s']) simp
qed

theorem read_after_teardown_returns_null_witness:
  "\<exists>s. exec [Render (Closure (Plain (1::nat))) () ([]::nat list), Commit, Unmount]
          (disposable_fresh []) = Inr ([0], s) \<and>
       get_current 0 s = Inr (Value Null)"
  using read_after_teardown_returns_null[of "[([], (Plain (1::nat), (), []::nat list))]" "[]"]
  by (auto simp: lifecycle_def useDisposableStableRef_def useMemo_def disposable_fresh_def
      split: sum.splits)

section \<open>Eager rebuild: one build per change of the dependencies (C5)\<close>

text \<open>
  C5. In eager rebuild mode with a builder that is a function, from a fresh call site:
  the first cycle invokes the builder and installs its result, and every later cycle
  behaves as section 4.4 says (\<open>eager_spec\<close>): it invokes the builder once if its
  dependencies differ from the recorded ones and leaves value and log untouched
  otherwise, and it records its dependencies in both cases. In particular, over any
  number of cycles with the same dependencies the builder is invoked once, by the first.
\<close>

theorem eager_rebuild_exactly_on_change:
  "eager_cycles (map (\<lambda>(r, d). (Closure r, d)) ((r0, d0) # cs)) (eager_fresh h) =
     Inr (map (Pair (length h)) ((Value r0, Some d0, [r0]) # eager_spec r0 d0 [r0] cs)) \<and>
   eager_cycles (map (\<lambda>r. (Closure r, d)) (r0 # rs)) (eager_fresh h) =
     Inr (replicate (Suc (length rs)) (length h, Value r0, Some d, [r0]))"
proof
  show "eager_cycles (map (\<lambda>(r, d). (Closure r, d)) ((r0, d0) # cs)) (eager_fresh h) =
     Inr (map (Pair (length h)) ((Value r0, Some d0, [r0]) # eager_spec r0 d0 [r0] cs))"
    by (rule eager_cycles_function)
next
  have "map (\<lambda>r. (Closure r, d)) (r0 # rs) =
        map (\<lambda>(r, d). (Closure r, d)) ((r0, d) # map (\<lambda>r. (r, d)) rs)"
    by (simp add: comp_def)
  then show "eager_cycles (map (\<lambda>r. (Closure r, d)) (r0 # rs)) (eager_fresh h) =
     Inr (replicate (Suc (length rs)) (length h, Value r0, Some d, [r0]))"
    by (simp only: eager_cycles_function eager_spec_constant) (simp add: map_replicate)
qed

theorem eager_rebuild_exactly_on_change_witness:
  "eager_cycles [(Closure (Plain (1::nat)), [1::nat]), (Closure (Plain 2), [1]),
                 (Closure (Plain 3), [2]), (Closure (Plain 4), [2])] (eager_fresh []) =
     Inr [(0, Value (Plain 1), Some [1], [Plain 1]), (0, Value (Plain 1), Some [1], [Plain 1]),
          (0, Value (Plain 3), Some [2], [Plain 1, Plain 3]),
          (0, Value (Plain 3), Some [2], [Plain 1, Plain 3])]"
  using eager_rebuild_exactly_on_change[of "Plain (1::nat)" "[1::nat]"
      "[(Plain 2, [1]), (Plain 3, [2]), (Plain 4, [2])]" "[]"]
  by simp

section \<open>Nothing is invoked in the compute phase of the deferred mode (C6)\<close>

text \<open>
  C6. The call shape (builder, cleanup, dependencies) selects \<open>useDisposableStableRef\<close>,
  and any number of its compute phases, from any state of the call site, leave the log
  of builder and cleanup invocations, the mounted effect and the stable callbacks as
  they were: they allocate the cell if the call site has none, and record the inputs of
  the latest compute phase as pending.
\<close>

theorem compute_phase_invokes_nothing:
  "useStableRef b (CleanupFunction c) (Some d) = UseDisposableStableRef b c d \<and>
   (\<exists>ref s'. exec (map render_of rs) s = Inr (replicate (length rs) ref, s') \<and>
      trace s' = trace s \<and> effect s' = effect s \<and>
      stableBuilder s' = stableBuilder s \<and> stableCleanup s' = stableCleanup s \<and>
      heap s' =
        (if memo s = None \<and> rs \<noteq> []
         then heap s @ [\<lparr>wrapper_current = unique_symbol, isInitialized = False\<rparr>]
         else heap s) \<and>
      (rs \<noteq> [] \<longrightarrow>
         pending s' = Some (fst (last rs), fst (snd (last rs)), ref, snd (snd (last rs)))))"
proof
  show "useStableRef b (CleanupFunction c) (Some d) = UseDisposableStableRef b c d"
    by (simp add: useStableRef_def dependencies_of_def cleanup_of_def)
next
  show "\<exists>ref s'. exec (map render_of rs) s = Inr (replicate (length rs) ref, s') \<and>
      trace s' = trace s \<and> effect s' = effect s \<and>
      stableBuilder s' = stableBuilder s \<and> stableCleanup s' = stableCleanup s \<and>
      heap s' =
        (if memo s = None \<and> rs \<noteq> []
         then heap s @ [\<lparr>wrapper_current = unique_symbol, isInitialized = False\<rparr>]
         else heap s) \<and>
      (rs \<noteq> [] \<longrightarrow>
         pending s' = Some (fst (last rs), fst (snd (last rs)), ref, snd (snd (last rs))))"
  proof (cases "memo s")
    case None
    show ?thesis
    proof (cases "rs = []")
      case True
      then show ?thesis by simp
    next
      case False
      from exec_renders_first[OF None False] None False show ?thesis by simp
    qed
  next
    case (Some ref)
    from exec_renders_next[OF Some, of rs] Some show ?thesis by auto
  qed
qed

theorem compute_phase_invokes_nothing_witness:
  "exec [Render (Closure (Plain (1::nat))) () [1::nat], Render (Closure (Plain 2)) () [2]]
     (disposable_fresh []) =
   Inr ([0, 0],
        \<lparr>heap = [\<lparr>wrapper_current = unique_symbol, isInitialized = False\<rparr>], memo = Some 0,
          pending = Some (Closure (Plain 2), (), 0, [2]), stableBuilder = None,
          stableCleanup = None, effect = None, trace = []\<rparr>)"
  using compute_phase_invokes_nothing[of "Closure (Plain (1::nat))" "()" "[1::nat]"
      "[(Closure (Plain (1::nat)), (), [1::nat]), (Closure (Plain 2), (), [2])]"
      "disposable_fresh []"]
  by (simp add: disposable_fresh_def useDisposableStableRef_def useMemo_def)

section \<open>Eager rebuild happens inside the compute phase (C7)\<close>

text \<open>
  C7. The call shape (builder, dependencies) selects \<open>useNonDisposableStableRef\<close>, and
  a compute phase that triggers a rebuild (the call site is fresh, or the cell holds
  the symbol, or the dependencies differ from the recorded ones) invokes the builder
  itself: the state it returns already has the builder's result in the cell, where a
  read of \<open>current\<close> finds it.
\<close>

theorem eager_builds_during_render:
  assumes "memo s = None \<or>
     (\<exists>ref. memo s = Some ref \<and> ref < length (heap s) \<and>
        (memo_current (heap s ! ref) = unique_symbol \<or>
         \<not> shallowCompare (memo_dependencies (heap s ! ref)) (Some d)))"
  shows "useStableRef (Closure r) (DependencyList d) param3 =
           (UseNonDisposableStableRef (Closure r) d :: ('a, 'c, 'd) delegate) \<and>
         (\<exists>ref s'. useNonDisposableStableRef (Closure r) d s = Inr (ref, s') \<and>
            memo_current (heap s' ! ref) = Value r \<and>
            builder_calls s' = builder_calls s @ [r])"
proof
  show "useStableRef (Closure r) (DependencyList d) param3 =
           (UseNonDisposableStableRef (Closure r) d :: ('a, 'c, 'd) delegate)"
    by (simp add: useStableRef_def dependencies_of_def cleanup_of_def)
next
  from assms show "\<exists>ref s'. useNonDisposableStableRef (Closure r) d s = Inr (ref, s') \<and>
            memo_current (heap s' ! ref) = Value r \<and>
            builder_calls s' = builder_calls s @ [r]"
  proof
    assume "memo s = None"
    then show ?thesis by (simp add: eager_first_function)
  next
    assume "\<exists>ref. memo s = Some ref \<and> ref < length (heap s) \<and>
        (memo_current (heap s ! ref) = unique_symbol \<or>
         \<not> shallowCompare (memo_dependencies (heap s ! ref)) (Some d))"
    then obtain ref where m: "memo s = Some ref" "ref < length (heap s)" and
      c: "memo_current (heap s ! ref) = unique_symbol \<or>
         \<not> shallowCompare (memo_dependencies (heap s ! ref)) (Some d)" by blast
    from c have "memo_current (heap s ! ref) = unique_symbol \<or>
        memo_dependencies (heap s ! ref) \<noteq> Some d"
      by (cases "memo_dependencies (heap s ! ref)") auto
    with m show ?thesis by (auto simp: eager_next_function)
  qed
qed

theorem eager_builds_during_render_witness:
  "useNonDisposableStableRef (Closure (Plain (5::nat))) [2::nat]
     \<lparr>heap = [\<lparr>memo_current = Value (Plain 4), memo_dependencies = Some [1]\<rparr>],
       memo = Some 0, builder_calls = [Plain 4]\<rparr> =
   Inr (0, \<lparr>heap = [\<lparr>memo_current = Value (Plain 5), memo_dependencies = Some [2]\<rparr>],
             memo = Some 0, builder_calls = [Plain 4, Plain 5]\<rparr>)"
  using eager_builds_during_render[of
      "\<lparr>heap = [\<lparr>memo_current = Value (Plain (4::nat)), memo_dependencies = Some [1::nat]\<rparr>],
        memo = Some 0, builder_calls = [Plain 4]\<rparr>" "[2]" "Plain 5" None]
  by (simp add: useNonDisposableStableRef_def useMemo_def)

section \<open>Passthrough (C8)\<close>

text \<open>
  C8. Without a dependency sequence the entry point selects \<open>useSimpleRef\<close> with the
  first argument as it is, a function included; and over any sequence of cycles from a
  fresh call site, a read of \<open>current\<close> after each cycle gives the argument of that
  cycle (never the symbol: the cell is initialized), through the same reference.
\<close>

theorem passthrough_overwrites_every_cycle:
  "(dependencies_of param2 param3 = None \<longrightarrow>
      useStableRef param1 param2 param3 = UseSimpleRef param1) \<and>
   simple_cycles vs (fresh h) = map (\<lambda>v. (length h, Value v)) vs \<and>
   (\<forall>ob \<in> set (simple_cycles vs (fresh h)). snd ob \<noteq> unique_symbol)"
  by (auto simp: useStableRef_def simple_cycles_fresh)

theorem passthrough_overwrites_every_cycle_witness:
  "dependencies_of (NoParam2 :: (unit, nat) param2) None = None \<and>
   useStableRef (Closure (Plain (1::nat))) (NoParam2 :: (unit, nat) param2) None =
     UseSimpleRef (Closure (Plain 1)) \<and>
   simple_cycles [Plain (42::nat), Closure (Plain 7), Undefined] (fresh []) =
     [(0, Value (Plain 42)), (0, Value (Closure (Plain 7))), (0, Value Undefined)]"
  using passthrough_overwrites_every_cycle[of "NoParam2 :: (unit, nat) param2" None
      "Closure (Plain (1::nat))" "[Plain (42::nat), Closure (Plain 7), Undefined]" "[]"]
  by (simp add: dependencies_of_def)

section \<open>Eager rebuild with a first argument that is not a function (C9)\<close>

text \<open>
  C9. With a dependency sequence and a first argument that is not a function, the
  entry point selects \<open>useNonDisposableStableRef\<close>; over any sequence of such cycles from
  a fresh call site no builder is invoked, no error is raised, and a read of \<open>current\<close>
  after each cycle gives the symbol, while the dependencies are recorded.
\<close>

theorem eager_non_function_never_builds:
  assumes "\<forall>c \<in> set cs. \<not> isFunction (fst c)"
  shows "(\<forall>c \<in> set cs. useStableRef (fst c) (DependencyList (snd c)) param3 =
            (UseNonDisposableStableRef (fst c) (snd c) :: ('a, 'c, 'd) delegate)) \<and>
         eager_cycles cs (eager_fresh h) =
           Inr (map (\<lambda>c. (length h, unique_symbol, Some (snd c), [])) cs)"
  using assms
  by (simp add: eager_cycles_other useStableRef_def dependencies_of_def cleanup_of_def)

theorem eager_non_function_never_builds_witness:
  "eager_cycles [(Plain (1::nat), [1::nat]), (Null, [2]), (Undefined, [2])] (eager_fresh []) =
     Inr [(0, unique_symbol, Some [1], []), (0, unique_symbol, Some [2], []),
          (0, unique_symbol, Some [2], [])]"
  using eager_non_function_never_builds[of
      "[(Plain (1::nat), [1::nat]), (Null, [2]), (Undefined, [2])]" None "[]"]
  by (simp add: useNonDisposableStableRef_def useMemo_def eager_fresh_def)

section \<open>Assignments never raise (C10)\<close>

text \<open>
  C10. An assignment to \<open>current\<close> succeeds in every state of a call site of each of the
  three modes and stores the value; for the accessor of \<open>useDisposableStableRef\<close> it
  leaves \<open>isInitialized\<close> as it was, and it succeeds after every run that succeeds,
  whether the cell is uninitialized, ready or torn down.
\<close>

theorem assignment_never_raises:
  "(\<exists>s'. assign_ref_current ref v s1 = Inr s' \<and>
      (ref < length (heap s1) \<longrightarrow> ref_current (heap s' ! ref) = Value v)) \<and>
   (\<exists>s'. assign_memo_current ref v s2 = Inr s' \<and>
      (ref < length (heap s2) \<longrightarrow> memo_current (heap s' ! ref) = Value v)) \<and>
   (\<exists>s'. set_current ref v s3 = Inr s' \<and>
      (ref < length (heap s3) \<longrightarrow>
         wrapper_current (heap s' ! ref) = Value v \<and>
         isInitialized (heap s' ! ref) = isInitialized (heap s3 ! ref))) \<and>
   (\<forall>refs s. exec acts (disposable_fresh h) = Inr (refs, s) \<longrightarrow>
      (\<exists>s'. exec (acts @ [Assign v]) (disposable_fresh h) = Inr (refs, s')))"
proof (intro conjI allI impI)
  show "\<exists>s'. assign_ref_current ref v s1 = Inr s' \<and>
      (ref < length (heap s1) \<longrightarrow> ref_current (heap s' ! ref) = Value v)"
    by (simp add: assign_ref_current_def)
next
  show "\<exists>s'. assign_memo_current ref v s2 = Inr s' \<and>
      (ref < length (heap s2) \<longrightarrow> memo_current (heap s' ! ref) = Value v)"
    by (simp add: assign_memo_current_def)
next
  show "\<exists>s'. set_current ref v s3 = Inr s' \<and>
      (ref < length (heap s3) \<longrightarrow>
         wrapper_current (heap s' ! ref) = Value v \<and>
         isInitialized (heap s' ! ref) = isInitialized (heap s3 ! ref))"
    by (simp add: set_current_def)
next
  fix refs s
  assume "exec acts (disposable_fresh h) = Inr (refs, s)"
  then show "\<exists>s'. exec (acts @ [Assign v]) (disposable_fresh h) = Inr (refs, s')"
    by (cases "memo s") (simp_all add: exec_append set_current_def)
qed

theorem assignment_never_raises_witness:
  "get_current 0 (disposable_fresh [\<lparr>wrapper_current = unique_symbol, isInitialized = False\<rparr>]
     :: (nat, unit, nat) disposable_fiber) = Inl NotAvailableDuringRender \<and>
   set_current 0 (Plain (3::nat))
     (disposable_fresh [\<lparr>wrapper_current = unique_symbol, isInitialized = False\<rparr>]
        :: (nat, unit, nat) disposable_fiber) =
   Inr \<lparr>heap = [\<lparr>wrapper_current = Value (Plain 3), isInitialized = False\<rparr>], memo = None,
         pending = None, stableBuilder = None, stableCleanup = None, effect = None,
         trace = [CurrentSet (Plain 3)]\<rparr> \<and>
   (\<exists>s'. exec [Render (Closure (Plain 1)) () [1::nat], Commit, Unmount, Assign (Plain (3::nat))]
          (disposable_fresh []) = Inr ([0], s'))"
  using assignment_never_raises[of 0 "Plain (3::nat)" "fresh []" "eager_fresh []"
      "disposable_fresh [\<lparr>wrapper_current = unique_symbol, isInitialized = False\<rparr>]
        :: (nat, unit, nat) disposable_fiber"
      "[Render (Closure (Plain 1)) () [1::nat], Commit, Unmount]" "[]"]
  by (auto simp: set_current_def get_current_def disposable_fresh_def
      useDisposableStableRef_def useMemo_def commit_def unmount_def run_effect_def
      run_destructor_def split: sum.splits)

end
